theory Spec2Isabelle
  imports Complex_Main
begin

section \<open>Regular expressions as extract.ts uses them\<close>

text \<open>
  The two regular expressions of extract.ts use anchors, single characters and character
  classes, sequencing, alternation, optional groups, and repetition of a single
  character class only (\<^verbatim>\<open> *\<close>, \<^verbatim>\<open>\d*\<close>, \<^verbatim>\<open>\d+\<close>); a counted group
  \<^verbatim>\<open>x{3}\<close> is three copies in sequence. Strings are lists of code units. Under the
  \<^verbatim>\<open>i\<close> flag a letter of the pattern stands for both of its cases, and no code unit
  above 127 is folded onto one below, so a class lists its members outright.
\<close>

datatype regex =
    Bol
  | Eol
  | Chars "char list"
  | Seq regex regex
  | Alt regex regex
  | Opt regex
  | StarC "char list"

text \<open>
  A matcher state is the index reached and the input left from there. \<open>rmatch r st\<close>
  lists the states in which \<open>r\<close> can finish when started in \<open>st\<close>, in the order a
  backtracking matcher tries them: the left alternative before the right one, a greedy
  optional group present before absent, a greedy repetition longest first.
\<close>

fun starC :: "char list \<Rightarrow> nat \<times> string \<Rightarrow> (nat \<times> string) list" where
  "starC cs (i, []) = [(i, [])]"
| "starC cs (i, c # s) =
     (if c \<in> set cs then starC cs (Suc i, s) else []) @ [(i, c # s)]"

fun rmatch :: "regex \<Rightarrow> nat \<times> string \<Rightarrow> (nat \<times> string) list" where
  "rmatch Bol (i, s) = (if i = 0 then [(i, s)] else [])"
| "rmatch Eol (i, s) = (if s = [] then [(i, s)] else [])"
| "rmatch (Chars cs) (i, []) = []"
| "rmatch (Chars cs) (i, c # s) = (if c \<in> set cs then [(Suc i, s)] else [])"
| "rmatch (Seq a b) st = concat (map (rmatch b) (rmatch a st))"
| "rmatch (Alt a b) st = rmatch a st @ rmatch b st"
| "rmatch (Opt a) st = rmatch a st @ [st]"
| "rmatch (StarC cs) st = starC cs st"

text \<open>
  \<open>exec r i s\<close> is one run of the matcher on the input whose part from index \<open>i\<close> on
  is \<open>s\<close>: the leftmost start at or after \<open>i\<close> where \<open>r\<close> matches, with the first
  way of matching there. It yields the matched text, the index after it and the input
  left.
\<close>

fun exec :: "regex \<Rightarrow> nat \<Rightarrow> string \<Rightarrow> (string \<times> nat \<times> string) option" where
  "exec r i [] =
     (case rmatch r (i, []) of
        [] \<Rightarrow> None
      | (j, rest) # _ \<Rightarrow> Some (take (j - i) [], j, rest))"
| "exec r i (c # s) =
     (case rmatch r (i, c # s) of
        [] \<Rightarrow> exec r (Suc i) s
      | (j, rest) # _ \<Rightarrow> Some (take (j - i) (c # s), j, rest))"

text \<open>
  Whatever \<open>rmatch\<close> reaches lies further right in the same input, so a match and
  what is left after it are no longer than the input searched.
\<close>

lemma starC_suffix:
  "(j, rest) \<in> set (starC cs (i, s)) \<Longrightarrow> \<exists>p. s = p @ rest \<and> j = i + length p"
proof (induction s arbitrary: i)
  case Nil
  then show ?case by simp
next
  case (Cons c s)
  show ?case
  proof (cases "(j, rest) = (i, c # s)")
    case True
    then show ?thesis by simp
  next
    case False
    with Cons.prems have "(j, rest) \<in> set (starC cs (Suc i, s))"
      by (auto split: if_splits)
    from Cons.IH [OF this] obtain p where "s = p @ rest" "j = Suc i + length p"
      by blast
    then have "c # s = (c # p) @ rest \<and> j = i + length (c # p)"
      by simp
    then show ?thesis by blast
  qed
qed

lemma rmatch_suffix:
  "(j, rest) \<in> set (rmatch r (i, s)) \<Longrightarrow> \<exists>p. s = p @ rest \<and> j = i + length p"
proof (induction r arbitrary: i s j rest)
  case Bol
  then show ?case by (simp split: if_splits)
next
  case Eol
  then show ?case by (simp split: if_splits)
next
  case (Chars cs)
  then show ?case by (cases s) (auto split: if_splits)
next
  case (Seq a b)
  from Seq.prems obtain k mid where
    a: "(k, mid) \<in> set (rmatch a (i, s))" and b: "(j, rest) \<in> set (rmatch b (k, mid))"
    by auto
  from Seq.IH(1) [OF a] obtain p where p: "s = p @ mid" "k = i + length p" by blast
  from Seq.IH(2) [OF b] obtain q where q: "mid = q @ rest" "j = k + length q" by blast
  from p q have "s = (p @ q) @ rest \<and> j = i + length (p @ q)" by simp
  then show ?case by blast
next
  case (Alt a b)
  then show ?case by auto
next
  case (Opt a)
  then show ?case by auto
next
  case (StarC cs)
  then show ?case by (simp add: starC_suffix)
qed

lemma exec_parts:
  "exec r i s = Some (m, j, rest) \<Longrightarrow> \<exists>q. s = q @ m @ rest \<and> j = i + length q + length m"
proof (induction s arbitrary: i)
  case Nil
  then obtain k rest' tl' where "rmatch r (i, []) = (k, rest') # tl'"
    by (auto split: list.splits)
  then have "(k, rest') \<in> set (rmatch r (i, []))" by simp
  from rmatch_suffix [OF this] have "rest' = []" "k = i" by auto
  with Nil \<open>rmatch r (i, []) = (k, rest') # tl'\<close> show ?case by simp
next
  case (Cons c s)
  show ?case
  proof (cases "rmatch r (i, c # s)")
    case Nil
    with Cons.prems have "exec r (Suc i) s = Some (m, j, rest)" by simp
    from Cons.IH [OF this] obtain q where "s = q @ m @ rest" "j = Suc i + length q + length m"
      by blast
    then have "c # s = (c # q) @ m @ rest \<and> j = i + length (c # q) + length m" by simp
    then show ?thesis by blast
  next
    case (Cons st sts)
    obtain k rest' where st: "st = (k, rest')" by (cases st)
    with Cons have "(k, rest') \<in> set (rmatch r (i, c # s))" by simp
    from rmatch_suffix [OF this] obtain p where p: "c # s = p @ rest'" "k = i + length p"
      by blast
    from Cons st Cons.prems have "m = take (k - i) (c # s)" "j = k" "rest = rest'" by auto
    with p have "c # s = [] @ m @ rest \<and> j = i + length ([]::string) + length m" by simp
    then show ?thesis by blast
  qed
qed

lemma exec_shorter:
  assumes "exec r i s = Some (m, j, rest)"
  shows "length m + length rest \<le> length s"
proof -
  from exec_parts [OF assms] obtain q where "s = q @ m @ rest" by blast
  then have "length s = length q + length m + length rest" by simp
  then show ?thesis by simp
qed

text \<open>
  \<^verbatim>\<open>String.prototype.match\<close> with the \<^verbatim>\<open>g\<close> flag: matches are collected from
  index 0 on, each search starting where the last match ended, one further after an
  empty match; a search that would start beyond the end of the input fails.
\<close>

function match_loop :: "regex \<Rightarrow> nat \<Rightarrow> string \<Rightarrow> string list" where
  "match_loop r i s =
     (case exec r i s of
        None \<Rightarrow> []
      | Some (m, j, rest) \<Rightarrow>
          (if m = [] then
             (case rest of [] \<Rightarrow> [m] | _ # rest' \<Rightarrow> m # match_loop r (Suc j) rest')
           else m # match_loop r j rest))"
  by pat_completeness auto
termination
proof (relation "measure (\<lambda>(r, i, s). length s)")
  show "wf (measure (\<lambda>(r, i, s). length s))" by simp
next
  fix r i s x m y j rest c rest'
  assume "exec r i s = Some x" "(m, y) = x" "(j, rest) = y" "m = []" "rest = c # rest'"
  then have "exec r i s = Some (m, j, c # rest')" by simp
  from exec_shorter [OF this]
  show "((r, Suc j, rest'), r, i, s) \<in> measure (\<lambda>(r, i, s). length s)" by simp
next
  fix r i s x m y j rest
  assume "exec r i s = Some x" "(m, y) = x" "(j, rest) = y" "m \<noteq> []"
  then have "exec r i s = Some (m, j, rest)" by simp
  from exec_shorter [OF this] \<open>m \<noteq> []\<close>
  show "((r, j, rest), r, i, s) \<in> measure (\<lambda>(r, i, s). length s)"
    by (cases m) simp_all
qed

declare match_loop.simps [simp del]

definition match_g :: "regex \<Rightarrow> string \<Rightarrow> string list" where
  "match_g r s = match_loop r 0 s"

text \<open>\<^verbatim>\<open>RegExp.prototype.test\<close> of a regular expression without the \<^verbatim>\<open>g\<close> flag.\<close>

definition test_re :: "regex \<Rightarrow> string \<Rightarrow> bool" where
  "test_re r s = (exec r 0 s \<noteq> None)"

text \<open>
  A pattern is closed by \<^verbatim>\<open>$\<close> when each of its alternatives ends with that anchor.
\<close>

fun ends_at_eol :: "regex \<Rightarrow> bool" where
  "ends_at_eol Eol = True"
| "ends_at_eol (Seq a b) = ends_at_eol b"
| "ends_at_eol (Alt a b) = (ends_at_eol a \<and> ends_at_eol b)"
| "ends_at_eol r = False"

subsection \<open>The patterns\<close>

definition hexdigit :: "char list" where
  "hexdigit = ''0123456789ABCDEFabcdef''"

definition digit :: "char list" where
  "digit = ''0123456789''"

fun seqs :: "regex list \<Rightarrow> regex" where
  "seqs [] = Opt (Chars [])"
| "seqs [r] = r"
| "seqs (r # rs) = Seq r (seqs rs)"

text \<open>The numeral \<^verbatim>\<open>[+-]?\d*\.?\d+\<close>.\<close>

definition num_re :: regex where
  "num_re = seqs [Opt (Chars ''+-''), StarC digit, Opt (Chars ''.''), Chars digit, StarC digit]"

text \<open>
  The first alternative, \<^verbatim>\<open>^#{1}[0-9A-Fa-f]{3}([0-9A-Fa-f]{3})?$\<close>.
\<close>

definition hex_re :: regex where
  "hex_re = seqs [Bol, Chars ''#'', Chars hexdigit, Chars hexdigit, Chars hexdigit,
     Opt (seqs [Chars hexdigit, Chars hexdigit, Chars hexdigit]), Eol]"

text \<open>
  The second alternative,
  \<^verbatim>\<open>rgba?\( *N *, *N *, *N(?: *, *N *)?\)$\<close> with \<^verbatim>\<open>N\<close> the numeral, under the
  \<^verbatim>\<open>i\<close> flag.
\<close>

definition rgb_re :: regex where
  "rgb_re = seqs [Chars ''rR'', Chars ''gG'', Chars ''bB'', Opt (Chars ''aA''), Chars ''('',
     StarC '' '', num_re, StarC '' '', Chars '','',
     StarC '' '', num_re, StarC '' '', Chars '','',
     StarC '' '', num_re,
     Opt (seqs [StarC '' '', Chars '','', StarC '' '', num_re, StarC '' '']),
     Chars '')'', Eol]"

definition color_re :: regex where
  "color_re = Alt hex_re rgb_re"

text \<open>\<^verbatim>\<open>value.match(/.../gi)\<close> of line 77; the empty list stands for \<^verbatim>\<open>null\<close>.\<close>

definition value_match :: "string \<Rightarrow> string list" where
  "value_match v = match_g color_re v"

text \<open>\<^verbatim>\<open>cssLangReg\<close>, \<^verbatim>\<open>\.(css)($|\?)\<close>, and \<^verbatim>\<open>isCSSRequest\<close>.\<close>

definition cssLangReg :: regex where
  "cssLangReg = seqs [Chars ''.'', Chars ''c'', Chars ''s'', Chars ''s'', Alt Eol (Chars ''?'')]"

definition isCSSRequest :: "string \<Rightarrow> bool" where
  "isCSSRequest request = test_re cssLangReg request"

section \<open>The data of extract.ts\<close>

text \<open>
  \<^verbatim>\<open>ChildNode\<close> is postcss's union of rule, declaration, at-rule and comment nodes,
  told apart by their \<^verbatim>\<open>type\<close> field (\<^verbatim>\<open>'rule'\<close>, \<^verbatim>\<open>'decl'\<close>, \<^verbatim>\<open>'atrule'\<close>,
  \<^verbatim>\<open>'comment'\<close>). A rule carries its selector and child nodes, a declaration its
  property and its value, an at-rule its name, parameters and child nodes, a comment
  its text.
\<close>

datatype ChildNode =
    Rule string "ChildNode list"
  | Decl string string
  | AtRule string string "ChildNode list"
  | Comment string

text \<open>
  The two functions of the color-string package that extract.ts calls: \<^verbatim>\<open>cs.get\<close>,
  which yields a color descriptor or \<^verbatim>\<open>null\<close>, and \<^verbatim>\<open>cs.to.hex\<close>, applied to the
  descriptor's \<^verbatim>\<open>value\<close>. The package is not part of the repository; the walker is
  modelled for any such pair, \<open>'c\<close> being the type of a descriptor's \<^verbatim>\<open>value\<close>.
\<close>

record 'c color_string =
  cs_get :: "string \<Rightarrow> 'c option"
  cs_to_hex :: "'c \<Rightarrow> string"

text \<open>The type \<^verbatim>\<open>Options\<close> of line 18.\<close>

record Options =
  repo :: string
  owner :: string
  branch :: string

text \<open>
  An entry of the opened archive: its path, and what \<^verbatim>\<open>file.buffer()\<close> followed by
  \<^verbatim>\<open>toString()\<close> gives, the text or the exception thrown.
\<close>

record 'e zip_file =
  path :: string
  buffer :: "'e + string"

text \<open>
  What extract.ts calls outside itself, each call returning a result or throwing (\<open>Inl\<close>):
  \<^verbatim>\<open>new URL(url).searchParams\<close> as the list of its name-value pairs,
  \<^verbatim>\<open>fetch\<close> with \<^verbatim>\<open>response.arrayBuffer()\<close>, \<^verbatim>\<open>unzipper.Open.buffer\<close> with the
  \<^verbatim>\<open>files\<close> of the directory, postcss's \<^verbatim>\<open>parse\<close> with the \<^verbatim>\<open>nodes\<close> of the
  root, and the color-string package.
\<close>

record ('e, 'c) services =
  searchParams :: "string \<Rightarrow> 'e + (string \<times> string) list"
  fetch :: "string \<Rightarrow> 'e + string"
  open_buffer :: "string \<Rightarrow> 'e + 'e zip_file list"
  parse :: "string \<Rightarrow> 'e + ChildNode list"
  cs :: "'c color_string"

text \<open>The object a handler returns; a field it leaves out is \<open>None\<close>.\<close>

record response =
  statusCode :: nat
  body :: "string option"
  HEADERS :: "(string \<times> string) list option"

definition HEADERS_const :: "(string \<times> string) list" where
  "HEADERS_const =
     [(''Access-Control-Allow-Headers'',
       ''Origin, X-Requested-With, Content-Type, Accept, Access-Control-Allow-Origin''),
      (''Content-Type'', ''text/plain''),
      (''Access-Control-Allow-Methods'', ''GET''),
      (''Access-Control-Max-Age'', ''8640''),
      (''Access-Control-Allow-Origin'', ''*''),
      (''Vary'', ''Origin'')]"

section \<open>The walker\<close>

text \<open>
  A \<^verbatim>\<open>Set<string>\<close> is the list of its members in insertion order, which is the order
  its iteration and \<^verbatim>\<open>Array.from\<close> give; \<open>set_add\<close> is \<^verbatim>\<open>Set.prototype.add\<close>.
\<close>

definition set_add :: "string \<Rightarrow> string list \<Rightarrow> string list" where
  "set_add x xs = (if x \<in> set xs then xs else xs @ [x])"

text \<open>Lines 83 to 85: what one matched token adds, if anything.\<close>

definition normalizer :: "'c color_string \<Rightarrow> string \<Rightarrow> string option" where
  "normalizer c matched =
     (case cs_get c matched of None \<Rightarrow> None | Some color \<Rightarrow> Some (cs_to_hex c color))"

text \<open>Lines 81 to 88: the loop over the matches of one declaration value.\<close>

fun add_matches :: "'c color_string \<Rightarrow> string list \<Rightarrow> string list \<Rightarrow> string list" where
  "add_matches c [] hexColors = hexColors"
| "add_matches c (matched # ms) hexColors =
     add_matches c ms
       (case normalizer c matched of None \<Rightarrow> hexColors | Some h \<Rightarrow> set_add h hexColors)"

text \<open>
  \<^verbatim>\<open>recursion\<close>, lines 68 to 93; \<open>recursion_loop\<close> is its \<^verbatim>\<open>for\<close> loop over the
  nodes, carrying \<^verbatim>\<open>hexColors\<close>.
\<close>

fun recursion :: "'c color_string \<Rightarrow> ChildNode list \<Rightarrow> string list"
  and recursion_loop :: "'c color_string \<Rightarrow> ChildNode list \<Rightarrow> string list \<Rightarrow> string list" where
  "recursion c nodes = recursion_loop c nodes []"
| "recursion_loop c [] hexColors = hexColors"
| "recursion_loop c (Rule sel kids # nodes) hexColors =
     recursion_loop c nodes (fold set_add (recursion c kids) hexColors)"
| "recursion_loop c (Decl prop v # nodes) hexColors =
     recursion_loop c nodes (add_matches c (value_match v) hexColors)"
| "recursion_loop c (AtRule nm params kids # nodes) hexColors = recursion_loop c nodes hexColors"
| "recursion_loop c (Comment txt # nodes) hexColors = recursion_loop c nodes hexColors"

section \<open>The grid and the document\<close>

text \<open>
  \<^verbatim>\<open>toTwoDimensional\<close>, line 25. \<^verbatim>\<open>i % size\<close> is \<^verbatim>\<open>NaN\<close>, which is falsy, when
  \<^verbatim>\<open>size\<close> is 0; \<^verbatim>\<open>a.slice(i, i + size)\<close> is the part of \<^verbatim>\<open>a\<close> from index \<^verbatim>\<open>i\<close>
  up to but not including \<^verbatim>\<open>i + size\<close>, cut at the end of \<^verbatim>\<open>a\<close>.
\<close>

definition slice :: "'a list \<Rightarrow> nat \<Rightarrow> nat \<Rightarrow> 'a list" where
  "slice a from to = take (to - from) (drop from a)"

definition toTwoDimensional :: "'a list \<Rightarrow> nat \<Rightarrow> 'a list list" where
  "toTwoDimensional arr sz =
     concat (map (\<lambda>i. if sz \<noteq> 0 \<and> i mod sz \<noteq> 0 then [] else [slice arr i (i + sz)])
       [0..<length arr])"

text \<open>
  A non-negative integer in a template literal is written in decimal (below \<open>10^21\<close>,
  far above any length).
\<close>

fun show_nat :: "nat \<Rightarrow> string" where
  "show_nat n =
     (if n < 10 then [char_of (48 + n)]
      else show_nat (n div 10) @ [char_of (48 + n mod 10)])"

declare show_nat.simps [simp del]

text \<open>The pieces of text of \<^verbatim>\<open>toSvgAsString\<close>, lines 47 to 53, 57 to 59 and 63.\<close>

definition svg_open :: "nat \<Rightarrow> string" where
  \<open>svg_open rows =
     ''<svg\<newline>  width="'' @ show_nat (64 * 10) @
     ''"\<newline>  height="'' @ show_nat (64 * rows) @
     ''"\<newline>  viewBox="0 0 '' @ show_nat (64 * 10) @ '' '' @ show_nat (64 * rows) @
     ''"\<newline>  fill="none"\<newline>  xmlns="http://www.w3.org/2000/svg"\<newline>>''\<close>

definition rect :: "nat \<Rightarrow> nat \<Rightarrow> string \<Rightarrow> string" where
  \<open>rect i j fill =
     ''<rect x="'' @ show_nat (j * 64) @ ''" y="'' @ show_nat (i * 64) @
     ''" width="64" height="64" fill="'' @ fill @ ''" />''\<close>

text \<open>The inner and the outer loop of lines 55 to 61, carrying \<^verbatim>\<open>svgAsString\<close>.\<close>

function inner_loop :: "string list list \<Rightarrow> nat \<Rightarrow> nat \<Rightarrow> string \<Rightarrow> string" where
  "inner_loop g i j svgAsString =
     (if j < length (g ! i)
      then inner_loop g i (j + 1) (svgAsString @ rect i j (g ! i ! j))
      else svgAsString)"
  by pat_completeness auto
termination
  by (relation "measure (\<lambda>(g, i, j, s). length (g ! i) - j)") auto

function outer_loop :: "string list list \<Rightarrow> nat \<Rightarrow> string \<Rightarrow> string" where
  "outer_loop g i svgAsString =
     (if i < length g
      then outer_loop g (i + 1) (inner_loop g i 0 svgAsString)
      else svgAsString)"
  by pat_completeness auto
termination
  by (relation "measure (\<lambda>(g, i, s). length g - i)") auto

declare inner_loop.simps [simp del] outer_loop.simps [simp del]

definition toSvgAsString :: "string list list \<Rightarrow> string" where
  "toSvgAsString twoDimensionalHexColors =
     outer_loop twoDimensionalHexColors 0 (svg_open (length twoDimensionalHexColors)) @ ''</svg>''"

section \<open>The pipeline and the handler\<close>

text \<open>\<^verbatim>\<open>searchParams.has\<close> and \<^verbatim>\<open>searchParams.get(k) || ''\<close>.\<close>

definition has :: "(string \<times> string) list \<Rightarrow> string \<Rightarrow> bool" where
  "has ps k = (k \<in> fst ` set ps)"

definition get_or_empty :: "(string \<times> string) list \<Rightarrow> string \<Rightarrow> string" where
  "get_or_empty ps k = (case map_of ps k of None \<Rightarrow> [] | Some v \<Rightarrow> v)"

text \<open>\<^verbatim>\<open>getSearchParams\<close>, lines 28 to 44; \<open>Inl\<close> when \<^verbatim>\<open>new URL\<close> throws.\<close>

definition getSearchParams :: "('e, 'c) services \<Rightarrow> string \<Rightarrow> 'e + Options option" where
  "getSearchParams env url =
     (case searchParams env url of
        Inl e \<Rightarrow> Inl e
      | Inr ps \<Rightarrow>
          Inr (if \<not> has ps ''repo'' \<or> \<not> has ps ''owner'' \<or> \<not> has ps ''branch'' then None
               else Some \<lparr>repo = get_or_empty ps ''repo'',
                          owner = get_or_empty ps ''owner'',
                          branch = get_or_empty ps ''branch''\<rparr>))"

text \<open>
  The loop of \<^verbatim>\<open>main\<close> over the files of the archive, lines 105 to 112, carrying
  \<^verbatim>\<open>hexColors\<close>; an exception thrown by \<^verbatim>\<open>file.buffer()\<close> or by \<^verbatim>\<open>parse\<close> ends it.
\<close>

fun files_loop ::
  "('e, 'c) services \<Rightarrow> 'e zip_file list \<Rightarrow> string list \<Rightarrow> 'e + string list" where
  "files_loop env [] hexColors = Inr hexColors"
| "files_loop env (file # files) hexColors =
     (if isCSSRequest (path file) then
        (case buffer file of
           Inl e \<Rightarrow> Inl e
         | Inr fileText \<Rightarrow>
             (case parse env fileText of
                Inl e \<Rightarrow> Inl e
              | Inr nodes \<Rightarrow>
                  files_loop env files (fold set_add (recursion (cs env) nodes) hexColors)))
      else files_loop env files hexColors)"

definition zipball_url :: "Options \<Rightarrow> string" where
  "zipball_url options =
     ''https://api.github.com/repos/'' @ owner options @ ''/'' @ repo options @
     ''/zipball/'' @ branch options"

text \<open>
  \<^verbatim>\<open>main\<close>, lines 95 to 115, with the distinct colors it has collected before
  rendering as \<open>main_colors\<close>. The first component of the result of \<open>main\<close> lists the
  addresses requested from the network.
\<close>

definition main_colors :: "('e, 'c) services \<Rightarrow> Options \<Rightarrow> 'e + string list" where
  "main_colors env options =
     (case fetch env (zipball_url options) of
        Inl e \<Rightarrow> Inl e
      | Inr buf \<Rightarrow>
          (case open_buffer env buf of
             Inl e \<Rightarrow> Inl e
           | Inr files \<Rightarrow> files_loop env files []))"

definition main :: "('e, 'c) services \<Rightarrow> Options \<Rightarrow> string list \<times> ('e + string)" where
  "main env options =
     ([zipball_url options],
      (case main_colors env options of
         Inl e \<Rightarrow> Inl e
       | Inr hexColors \<Rightarrow> Inr (toSvgAsString (toTwoDimensional hexColors 10))))"

text \<open>
  \<^verbatim>\<open>handler\<close>, lines 117 to 140: the addresses requested from the network, and the
  response, or the exception of \<^verbatim>\<open>new URL\<close>, which is thrown before the \<^verbatim>\<open>try\<close>.
\<close>

definition handler :: "('e, 'c) services \<Rightarrow> string \<Rightarrow> string list \<times> ('e + response)" where
  "handler env rawUrl =
     (case getSearchParams env rawUrl of
        Inl e \<Rightarrow> ([], Inl e)
      | Inr None \<Rightarrow> ([], Inr \<lparr>statusCode = 400, body = None, HEADERS = None\<rparr>)
      | Inr (Some options) \<Rightarrow>
          (case main env options of
             (net, Inr svgAsString) \<Rightarrow>
               (net, Inr \<lparr>statusCode = 200, body = Some svgAsString, HEADERS = Some HEADERS_const\<rparr>)
           | (net, Inl e) \<Rightarrow>
               (net, Inr \<lparr>statusCode = 500, body = None, HEADERS = None\<rparr>)))"

section \<open>Notions of the specification\<close>

text \<open>
  The first-seen order of a sequence: each member stays where it first occurs and its
  later occurrences are dropped, the others keeping their order.
\<close>

fun first_seen :: "'a list \<Rightarrow> 'a list" where
  "first_seen [] = []"
| "first_seen (x # xs) = x # first_seen (removeAll x xs)"

text \<open>
  The colors of a style tree in document order, repetitions included: depth first
  through rule nodes, the declarations of a rule in their order, the matches of a value
  from left to right.
\<close>

fun doc_colors :: "'c color_string \<Rightarrow> ChildNode list \<Rightarrow> string list" where
  "doc_colors c [] = []"
| "doc_colors c (Rule sel kids # nodes) = doc_colors c kids @ doc_colors c nodes"
| "doc_colors c (Decl prop v # nodes) =
     List.map_filter (normalizer c) (value_match v) @ doc_colors c nodes"
| "doc_colors c (AtRule nm params kids # nodes) = doc_colors c nodes"
| "doc_colors c (Comment txt # nodes) = doc_colors c nodes"

text \<open>
  The colors of an archive in archive order: those of each stylesheet entry in turn,
  an entry that cannot be read or parsed having none.
\<close>

fun archive_colors :: "('e, 'c) services \<Rightarrow> 'e zip_file list \<Rightarrow> string list" where
  "archive_colors env [] = []"
| "archive_colors env (file # files) =
     (if isCSSRequest (path file) then
        (case buffer file of
           Inl e \<Rightarrow> []
         | Inr fileText \<Rightarrow>
             (case parse env fileText of
                Inl e \<Rightarrow> []
              | Inr nodes \<Rightarrow> doc_colors (cs env) nodes))
      else []) @ archive_colors env files"

text \<open>
  A declaration value lies under a list of nodes through rules when it belongs to a
  declaration of the list, or lies so under the children of a rule of the list.
\<close>

inductive under_rules :: "string \<Rightarrow> ChildNode list \<Rightarrow> bool" where
  here: "Decl p v \<in> set nodes \<Longrightarrow> under_rules v nodes"
| deeper: "Rule sel kids \<in> set nodes \<Longrightarrow> under_rules v kids \<Longrightarrow> under_rules v nodes"

text \<open>A style tree without its at-rule nodes, at every depth reached through rules.\<close>

fun drop_atrules :: "ChildNode list \<Rightarrow> ChildNode list" where
  "drop_atrules [] = []"
| "drop_atrules (Rule sel kids # nodes) = Rule sel (drop_atrules kids) # drop_atrules nodes"
| "drop_atrules (AtRule nm params kids # nodes) = drop_atrules nodes"
| "drop_atrules (Decl prop v # nodes) = Decl prop v # drop_atrules nodes"
| "drop_atrules (Comment txt # nodes) = Comment txt # drop_atrules nodes"

text \<open>
  The document the specification describes for a grid: the opening tag with width 640
  and height 64 for each row, one rectangle for each cell, row by row, and the closing
  tag.
\<close>

definition svg_document :: "string list list \<Rightarrow> string" where
  \<open>svg_document g =
     ''<svg\<newline>  width="640"\<newline>  height="'' @ show_nat (length g * 64) @
     ''"\<newline>  viewBox="0 0 640 '' @ show_nat (length g * 64) @
     ''"\<newline>  fill="none"\<newline>  xmlns="http://www.w3.org/2000/svg"\<newline>>'' @
     concat (map (\<lambda>i. concat (map (\<lambda>j.
         ''<rect x="'' @ show_nat (j * 64) @ ''" y="'' @ show_nat (i * 64) @
         ''" width="64" height="64" fill="'' @ g ! i ! j @ ''" />'')
       [0..<length (g ! i)])) [0..<length g]) @
     ''</svg>''\<close>

section \<open>The Normalizer of the specification\<close>

text \<open>
  Modelled from the spec: the color-string package, whose \<^verbatim>\<open>cs.get\<close> and
  \<^verbatim>\<open>cs.to.hex\<close> are the Normalizer, is not under src/. Section 4.1 of the
  specification describes it: a token of one of the two lexical shapes, \<^verbatim>\<open>#\<close> with 3 or
  6 hex digits or \<^verbatim>\<open>rgb(...)\<close>/\<^verbatim>\<open>rgba(...)\<close> with 3 channels and an optional alpha,
  resolves to a canonical 6-digit hex string, the alpha channel ignored, or to nothing
  when its numeric ranges are malformed. The canonical form is written in lower case, as
  the examples of the specification write it. What a signed or fractional channel
  denotes the specification leaves open; here a channel resolves when it is a whole
  number from 0 to 255, with or without a plus sign. The record is the resolved color.
\<close>

record rgba =
  red :: nat
  green :: nat
  blue :: nat
  alpha :: "string option"

text \<open>Modelled from the spec: the value of a hex digit of either case.\<close>

definition hex_value :: "char \<Rightarrow> nat option" where
  "hex_value ch =
     (let n = of_char ch :: nat in
      if 48 \<le> n \<and> n \<le> 57 then Some (n - 48)
      else if 65 \<le> n \<and> n \<le> 70 then Some (n - 55)
      else if 97 \<le> n \<and> n \<le> 102 then Some (n - 87)
      else None)"

text \<open>Modelled from the spec: a letter in lower case.\<close>

definition to_lower :: "char \<Rightarrow> char" where
  "to_lower ch =
     (case map_of (zip ''ABCDEFGHIJKLMNOPQRSTUVWXYZ'' ''abcdefghijklmnopqrstuvwxyz'') ch of
        None \<Rightarrow> ch
      | Some l \<Rightarrow> l)"

text \<open>
  Modelled from the spec: the color of the digits after \<^verbatim>\<open>#\<close>; a 3-digit token stands
  for the 6-digit one with each digit doubled.
\<close>

definition get_hex :: "string \<Rightarrow> rgba option" where
  "get_hex ds =
     (case map hex_value ds of
        [Some a, Some b, Some c] \<Rightarrow>
          Some \<lparr>red = 16 * a + a, green = 16 * b + b, blue = 16 * c + c, alpha = None\<rparr>
      | [Some a, Some a', Some b, Some b', Some c, Some c'] \<Rightarrow>
          Some \<lparr>red = 16 * a + a', green = 16 * b + b', blue = 16 * c + c', alpha = None\<rparr>
      | _ \<Rightarrow> None)"

text \<open>Modelled from the spec: the fields of a functional notation, cut at its commas.\<close>

fun split_commas :: "string \<Rightarrow> string list" where
  "split_commas [] = [[]]"
| "split_commas (ch # s) =
     (if ch = CHR '','' then [] # split_commas s
      else (case split_commas s of [] \<Rightarrow> [[ch]] | w # ws \<Rightarrow> (ch # w) # ws))"

text \<open>Modelled from the spec: a field without the spaces around it.\<close>

definition trim :: "string \<Rightarrow> string" where
  "trim s = rev (dropWhile (\<lambda>ch. ch = CHR '' '') (rev (dropWhile (\<lambda>ch. ch = CHR '' '') s)))"

text \<open>Modelled from the spec: the number a string of decimal digits denotes.\<close>

definition decimal :: "string \<Rightarrow> nat" where
  "decimal s = foldl (\<lambda>n ch. 10 * n + (of_char ch - 48)) 0 s"

text \<open>
  Modelled from the spec: the value of a channel field, or nothing when its numeric range
  is malformed.
\<close>

definition channel :: "string \<Rightarrow> nat option" where
  "channel w =
     (let s = trim w; d = (case s of ch # r \<Rightarrow> if ch = CHR ''+'' then r else s | [] \<Rightarrow> s) in
      if d \<noteq> [] \<and> list_all (\<lambda>ch. ch \<in> set digit) d \<and> decimal d \<le> 255 then Some (decimal d)
      else None)"

text \<open>
  Modelled from the spec: the fields between the parentheses of \<^verbatim>\<open>rgb(...)\<close> or
  \<^verbatim>\<open>rgba(...)\<close>, in either case of the letters.
\<close>

definition rgb_fields :: "string \<Rightarrow> string list option" where
  "rgb_fields t =
     (let l = map to_lower t in
      if take 5 l = ''rgba('' \<and> last t = CHR '')'' then Some (split_commas (butlast (drop 5 t)))
      else if take 4 l = ''rgb('' \<and> last t = CHR '')'' then Some (split_commas (butlast (drop 4 t)))
      else None)"

text \<open>
  Modelled from the spec: the color of a functional notation, from its three channels;
  a fourth field, the alpha channel, is kept as it is written.
\<close>

definition get_rgb :: "string \<Rightarrow> rgba option" where
  "get_rgb t =
     (case rgb_fields t of
        None \<Rightarrow> None
      | Some ws \<Rightarrow>
          (if length ws = 3 \<or> length ws = 4 then
             (case map channel (take 3 ws) of
                [Some r, Some g, Some b] \<Rightarrow>
                  Some \<lparr>red = r, green = g, blue = b,
                        alpha = (if length ws = 4 then Some (trim (ws ! 3)) else None)\<rparr>
              | _ \<Rightarrow> None)
           else None))"

text \<open>Modelled from the spec: \<^verbatim>\<open>cs.get\<close>, a token resolved to its color or to nothing.\<close>

definition spec_get :: "string \<Rightarrow> rgba option" where
  "spec_get t =
     (case t of ch # ds \<Rightarrow> if ch = CHR ''#'' then get_hex ds else get_rgb t | [] \<Rightarrow> None)"

text \<open>Modelled from the spec: the two hex digits of a channel, in lower case.\<close>

definition lower_hexdigit :: "char list" where
  "lower_hexdigit = ''0123456789abcdef''"

definition hex_pair :: "nat \<Rightarrow> string" where
  "hex_pair n = [lower_hexdigit ! (n div 16 mod 16), lower_hexdigit ! (n mod 16)]"

text \<open>
  Modelled from the spec: \<^verbatim>\<open>cs.to.hex\<close>, the canonical 6-digit form of a color, its
  alpha channel ignored.
\<close>

definition spec_to_hex :: "rgba \<Rightarrow> string" where
  "spec_to_hex v = CHR ''#'' # hex_pair (red v) @ hex_pair (green v) @ hex_pair (blue v)"

text \<open>Modelled from the spec: the color-string package as the specification describes it.\<close>

definition spec_cs :: "rgba color_string" where
  "spec_cs = \<lparr>cs_get = spec_get, cs_to_hex = spec_to_hex\<rparr>"

text \<open>A canonical 6-digit hex string: \<^verbatim>\<open>#\<close> and six hex digits in lower case.\<close>

definition canonical_hex :: "string \<Rightarrow> bool" where
  "canonical_hex h =
     (length h = 7 \<and> take 1 h = ''#'' \<and> list_all (\<lambda>ch. ch \<in> set lower_hexdigit) (drop 1 h))"

text \<open>The 6-digit form of the digits of a hex token: three digits are each doubled.\<close>

definition expand6 :: "string \<Rightarrow> string" where
  "expand6 ds = (if length ds = 3 then concat (map (\<lambda>ch. [ch, ch]) ds) else ds)"

text \<open>The tokens \<^verbatim>\<open>rgb(r,g,b)\<close> and \<^verbatim>\<open>rgba(r,g,b,a)\<close> of given fields.\<close>

definition rgb_token :: "string \<Rightarrow> string \<Rightarrow> string \<Rightarrow> string" where
  "rgb_token r g b = ''rgb('' @ r @ '','' @ g @ '','' @ b @ '')''"

definition rgba_token :: "string \<Rightarrow> string \<Rightarrow> string \<Rightarrow> string \<Rightarrow> string" where
  "rgba_token r g b a = ''rgba('' @ r @ '','' @ g @ '','' @ b @ '','' @ a @ '')''"

section \<open>An archive to run the pipeline on\<close>

text \<open>
  Services for trying the pipeline on given archive entries: every address is fetched
  and every buffer opens to the entries; the parser knows two stylesheets and rejects
  any other text; the Normalizer is that of the specification.
\<close>

definition demo_parse :: "string \<Rightarrow> unit + ChildNode list" where
  "demo_parse txt =
     (if txt = ''a{color:#fff;background:rgb(0,0,0);border-color:#fff}'' then
        Inr [Rule ''a'' [Decl ''color'' ''#fff'', Decl ''background'' ''rgb(0,0,0)'',
                         Decl ''border-color'' ''#fff'']]
      else if txt = ''b{color:#000;c{color:#ABC}}'' then
        Inr [Rule ''b'' [Decl ''color'' ''#000'', Rule ''c'' [Decl ''color'' ''#ABC'']]]
      else Inl ())"

definition demo_services :: "unit zip_file list \<Rightarrow> (unit, rgba) services" where
  "demo_services entries =
     \<lparr>searchParams = (\<lambda>url. Inr [(''repo'', ''r''), (''owner'', ''o''), (''branch'', ''main'')]),
      fetch = (\<lambda>url. Inr ''PK''),
      open_buffer = (\<lambda>buf. Inr entries),
      parse = demo_parse,
      cs = spec_cs\<rparr>"

definition demo_options :: Options where
  "demo_options = \<lparr>repo = ''r'', owner = ''o'', branch = ''main''\<rparr>"

definition demo_entries :: "unit zip_file list" where
  "demo_entries =
     [\<lparr>path = ''r-main/a.css'',
       buffer = Inr ''a{color:#fff;background:rgb(0,0,0);border-color:#fff}''\<rparr>,
      \<lparr>path = ''r-main/README.md'', buffer = Inr ''colors''\<rparr>,
      \<lparr>path = ''r-main/b.css'', buffer = Inr ''b{color:#000;c{color:#ABC}}''\<rparr>]"

definition demo_broken_entries :: "unit zip_file list" where
  "demo_broken_entries =
     [\<lparr>path = ''r-main/a.css'',
       buffer = Inr ''a{color:#fff;background:rgb(0,0,0);border-color:#fff}''\<rparr>,
      \<lparr>path = ''r-main/bad.css'', buffer = Inr ''a{color:#fff''\<rparr>]"

section \<open>The walker: at-rules, nested rules, order\<close>

lemma recursion_loop_append:
  "recursion_loop c (xs @ ys) acc = recursion_loop c ys (recursion_loop c xs acc)"
proof (induction xs arbitrary: acc)
  case Nil
  show ?case by simp
next
  case (Cons x xs)
  then show ?case by (cases x) simp_all
qed

lemma recursion_loop_drop_atrules:
  "recursion_loop c (drop_atrules nodes) acc = recursion_loop c nodes acc"
  by (induction nodes arbitrary: acc rule: drop_atrules.induct) simp_all

text \<open>
  C10. The walker descends only into nodes of type rule. An at-rule node contributes
  nothing, whatever lies in it: the result is the same with the node taken out, and the
  same for the tree with its at-rule nodes dropped at every depth the walker reaches.
\<close>

theorem walker_skips_atrules:
  "recursion c (pre @ AtRule nm params kids # post) = recursion c (pre @ post) \<and>
   recursion c (drop_atrules nodes) = recursion c nodes"
  by (simp add: recursion_loop_append recursion_loop_drop_atrules)

lemma first_seen_filter: "first_seen (filter P xs) = filter P (first_seen xs)"
proof (induction xs rule: first_seen.induct)
  case 1
  show ?case by simp
next
  case (2 x xs)
  have comm: "removeAll x (filter P xs) = filter P (removeAll x xs)"
    by (induction xs) auto
  show ?case
  proof (cases "P x")
    case True
    with 2 comm show ?thesis by simp
  next
    case False
    then have "filter P (removeAll x xs) = filter P xs"
      by (induction xs) auto
    with 2 False show ?thesis by simp
  qed
qed

lemma set_first_seen: "set (first_seen xs) = set xs"
  by (induction xs rule: first_seen.induct) auto

lemma set_add_old: "x \<in> set acc \<Longrightarrow> set_add x acc = acc"
  by (simp add: set_add_def)

lemma set_add_new: "x \<notin> set acc \<Longrightarrow> set_add x acc = acc @ [x]"
  by (simp add: set_add_def)

lemma fold_set_add:
  "fold set_add xs acc = acc @ first_seen (filter (\<lambda>x. x \<notin> set acc) xs)"
proof (induction xs arbitrary: acc)
  case Nil
  show ?case by simp
next
  case (Cons x xs)
  show ?case
  proof (cases "x \<in> set acc")
    case True
    then show ?thesis by (simp add: set_add_old Cons.IH)
  next
    case False
    have "filter (\<lambda>y. y \<notin> set (acc @ [x])) xs = removeAll x (filter (\<lambda>y. y \<notin> set acc) xs)"
      by (induction xs) auto
    with False show ?thesis by (simp add: set_add_new Cons.IH)
  qed
qed

lemma fold_set_add_empty: "fold set_add xs [] = first_seen xs"
  by (simp add: fold_set_add)

lemma fold_set_add_first_seen: "fold set_add (first_seen xs) acc = fold set_add xs acc"
proof -
  have idem: "first_seen (first_seen ys) = first_seen ys" for ys :: "string list"
  proof (induction ys rule: first_seen.induct)
    case 1
    show ?case by simp
  next
    case (2 x xs)
    have "removeAll x (first_seen (removeAll x xs)) = first_seen (removeAll x xs)"
      by (rule removeAll_id) (simp add: set_first_seen)
    with 2 show ?case by simp
  qed
  show ?thesis
    by (simp add: fold_set_add first_seen_filter [symmetric] idem)
qed

lemma add_matches_fold:
  "add_matches c ms acc = fold set_add (List.map_filter (normalizer c) ms) acc"
  by (induction ms arbitrary: acc) (simp_all add: List.map_filter_simps split: option.splits)

lemma recursion_loop_doc_colors:
  "recursion_loop c nodes acc = fold set_add (doc_colors c nodes) acc"
proof (induction c nodes arbitrary: acc rule: doc_colors.induct)
  case (2 c sel kids nodes)
  have "recursion c kids = first_seen (doc_colors c kids)"
    by (simp add: "2.IH"(1) fold_set_add_empty)
  then show ?case
    by (simp add: "2.IH"(2) fold_set_add_first_seen)
qed (simp_all add: add_matches_fold)

lemma recursion_doc_colors: "recursion c nodes = first_seen (doc_colors c nodes)"
  by (simp add: recursion_loop_doc_colors fold_set_add_empty)

lemma files_loop_colors:
  "files_loop env files acc = Inr hs \<Longrightarrow> hs = fold set_add (archive_colors env files) acc"
proof (induction files arbitrary: acc)
  case Nil
  then show ?case by simp
next
  case (Cons f fs)
  show ?case
  proof (cases "isCSSRequest (path f)")
    case False
    with Cons show ?thesis by simp
  next
    case True
    with Cons.prems obtain fileText nodes where
      ok: "buffer f = Inr fileText" "parse env fileText = Inr nodes"
      and rest: "files_loop env fs (fold set_add (recursion (cs env) nodes) acc) = Inr hs"
      by (auto split: sum.splits)
    from Cons.IH [OF rest] True ok show ?thesis
      by (simp add: recursion_loop_doc_colors fold_set_add_empty fold_set_add_first_seen)
  qed
qed

lemma distinct_first_seen: "distinct (first_seen xs)"
  by (induction xs rule: first_seen.induct) (simp_all add: set_first_seen)

text \<open>
  C3. When the pipeline has fetched and opened the archive and collected its colors,
  these are the colors of the archive, stylesheet entries in archive order and each
  stylesheet in document order, in first-seen order: every color once, at the place of
  its first occurrence.
\<close>

theorem colors_first_seen_order:
  assumes "fetch env (zipball_url options) = Inr buf"
    and "open_buffer env buf = Inr entries"
    and "main_colors env options = Inr hs"
  shows "hs = first_seen (archive_colors env entries) \<and> distinct hs"
proof -
  from assms have "files_loop env entries [] = Inr hs"
    by (simp add: main_colors_def)
  from files_loop_colors [OF this] have "hs = first_seen (archive_colors env entries)"
    by (simp add: fold_set_add_empty)
  then show ?thesis by (simp add: distinct_first_seen)
qed

theorem colors_first_seen_order_witness:
  "fetch (demo_services demo_entries) (zipball_url demo_options) = Inr ''PK'' \<and>
   open_buffer (demo_services demo_entries) ''PK'' = Inr demo_entries \<and>
   main_colors (demo_services demo_entries) demo_options = Inr [''#ffffff'', ''#000000'', ''#aabbcc''] \<and>
   [''#ffffff'', ''#000000'', ''#aabbcc''] = first_seen (archive_colors (demo_services demo_entries) demo_entries) \<and>
   distinct [''#ffffff'', ''#000000'', ''#aabbcc'']"
proof -
  have f: "fetch (demo_services demo_entries) (zipball_url demo_options) = Inr ''PK''"
    by (simp add: demo_services_def)
  have b: "open_buffer (demo_services demo_entries) ''PK'' = Inr demo_entries"
    by (simp add: demo_services_def)
  have m: "main_colors (demo_services demo_entries) demo_options
             = Inr [''#ffffff'', ''#000000'', ''#aabbcc'']"
    by code_simp
  note c = colors_first_seen_order [OF f b m]
  from f b m c show ?thesis by (intro conjI) (rule f b m conjunct1 [OF c] conjunct2 [OF c])+
qed

lemma decl_doc_colors:
  "Decl prop v \<in> set nodes \<Longrightarrow>
   set (List.map_filter (normalizer c) (value_match v)) \<subseteq> set (doc_colors c nodes)"
  by (induction c nodes rule: doc_colors.induct) auto

lemma rule_doc_colors:
  "Rule sel kids \<in> set nodes \<Longrightarrow> set (doc_colors c kids) \<subseteq> set (doc_colors c nodes)"
  by (induction c nodes rule: doc_colors.induct) auto

lemma under_rules_doc_colors:
  "under_rules v nodes \<Longrightarrow>
   set (List.map_filter (normalizer c) (value_match v)) \<subseteq> set (doc_colors c nodes)"
proof (induction rule: under_rules.induct)
  case (here p v nodes)
  then show ?case by (rule decl_doc_colors)
next
  case (deeper sel kids nodes v)
  from rule_doc_colors [OF deeper.hyps(1)] deeper.IH show ?case by blast
qed

text \<open>
  C5. A color of a declaration that lies under the nodes through rules nested to any
  depth is in the result of the walker: when a match of the declaration's value
  resolves to a color, that color is a member.
\<close>

theorem nested_rule_color_found:
  assumes "under_rules v nodes" and "m \<in> set (value_match v)" and "normalizer c m = Some h"
  shows "h \<in> set (recursion c nodes)"
proof -
  from assms(2,3) have "h \<in> set (List.map_filter (normalizer c) (value_match v))"
    by (force simp: List.map_filter_def)
  with under_rules_doc_colors [OF assms(1)] have "h \<in> set (doc_colors c nodes)"
    by blast
  then show ?thesis by (simp only: recursion_doc_colors set_first_seen)
qed

theorem nested_rule_color_found_witness:
  "under_rules ''#fff'' [Rule ''a'' [Rule ''b'' [Decl ''color'' ''#fff'']]] \<and>
   ''#fff'' \<in> set (value_match ''#fff'') \<and>
   normalizer spec_cs ''#fff'' = Some ''#ffffff'' \<and>
   ''#ffffff'' \<in> set (recursion spec_cs [Rule ''a'' [Rule ''b'' [Decl ''color'' ''#fff'']]])"
proof -
  have "under_rules ''#fff'' [Decl ''color'' ''#fff'']"
    by (rule under_rules.here [of "''color''"]) simp
  then have "under_rules ''#fff'' [Rule ''b'' [Decl ''color'' ''#fff'']]"
    by (rule under_rules.deeper [where sel = "''b''", rotated]) simp
  then have u: "under_rules ''#fff'' [Rule ''a'' [Rule ''b'' [Decl ''color'' ''#fff'']]]"
    by (rule under_rules.deeper [where sel = "''a''", rotated]) simp
  have m: "''#fff'' \<in> set (value_match ''#fff'')" by code_simp
  have n: "normalizer spec_cs ''#fff'' = Some ''#ffffff''" by code_simp
  from nested_rule_color_found [OF u m n] u m n show ?thesis by simp
qed

section \<open>The grid\<close>

lemma filter_upt_Suc: "filter P [0..<Suc n] = filter P [0..<n] @ (if P n then [n] else [])"
  by simp

lemma not_multiple: "n mod 10 \<noteq> 0 \<Longrightarrow> 10 * m \<noteq> n + (10::nat)"
  by presburger

lemma multiples_upto:
  "n \<le> 10 * m \<Longrightarrow> 10 * m < n + 10 \<Longrightarrow>
   filter (\<lambda>i. i mod 10 = 0) [0..<n] = map (\<lambda>k. 10 * k) [0..<m]"
proof (induction n arbitrary: m)
  case 0
  then have "m = 0" by linarith
  then show ?case by simp
next
  case (Suc n)
  show ?case
  proof (cases "n mod 10 = 0")
    case True
    then obtain q where n: "n = 10 * q" by (auto simp: mod_eq_0_iff_dvd elim: dvdE)
    with Suc.prems have m: "m = Suc q" by linarith
    from n have "n \<le> 10 * q" "10 * q < n + 10" by simp_all
    then have ih: "filter (\<lambda>i. i mod 10 = 0) [0..<n] = map (\<lambda>k. 10 * k) [0..<q]"
      by (rule Suc.IH)
    from True have "filter (\<lambda>i. i mod 10 = 0) [0..<Suc n] = filter (\<lambda>i. i mod 10 = 0) [0..<n] @ [n]"
      unfolding filter_upt_Suc by (simp only: refl if_True)
    also have "\<dots> = map (\<lambda>k. 10 * k) [0..<q] @ [10 * q]"
      by (simp only: ih n [symmetric])
    also have "\<dots> = map (\<lambda>k. 10 * k) [0..<Suc q]"
      by simp
    finally show ?thesis unfolding m .
  next
    case False
    from not_multiple [OF False, of m] Suc.prems have "n \<le> 10 * m" "10 * m < n + 10"
      by arith+
    then have ih: "filter (\<lambda>i. i mod 10 = 0) [0..<n] = map (\<lambda>k. 10 * k) [0..<m]"
      by (rule Suc.IH)
    from False have "filter (\<lambda>i. i mod 10 = 0) [0..<Suc n] = filter (\<lambda>i. i mod 10 = 0) [0..<n]"
      unfolding filter_upt_Suc by (simp only: if_False append_Nil2)
    then show ?thesis
      by (simp only: ih)
  qed
qed

lemma rows_bounds: "n \<le> 10 * ((n + 9) div (10::nat)) \<and> 10 * ((n + 9) div 10) < n + 10"
  by presburger

lemma multiples_of_10:
  "filter (\<lambda>i. i mod 10 = 0) [0..<n] = map (\<lambda>k. 10 * k) [0..<(n + 9) div 10]"
  using rows_bounds [of n] by (intro multiples_upto) simp_all

lemma concat_map_if:
  "concat (map (\<lambda>i. if P i then [] else [f i]) xs) = map f (filter (\<lambda>i. \<not> P i) xs)"
  by (induction xs) simp_all

lemma concat_rows: "concat (map (\<lambda>k. take n (drop (n * k) arr)) [0..<m]) = take (n * m) arr"
proof (induction m)
  case 0
  show ?case by simp
next
  case (Suc m)
  have "take (n * m + n) arr = take (n * m) arr @ take n (drop (n * m) arr)"
    by (rule take_add)
  with Suc show ?case by (simp add: add.commute)
qed

lemma ceil10: "\<lceil>real n / 10\<rceil> = int ((n + 9) div 10)"
proof -
  define m where "m = (n + 9) div 10"
  from rows_bounds [of n] have "n \<le> 10 * m" "10 * m < n + 10"
    unfolding m_def by simp_all
  then have "real n \<le> real (10 * m)" "real (10 * m) < real (n + 10)"
    by (simp_all only: of_nat_le_iff of_nat_less_iff)
  then have "real n \<le> 10 * real m" "10 * real m < real n + 10"
    by simp_all
  then have "\<lceil>real n / 10\<rceil> = int m"
    by (simp add: ceiling_eq_iff)
  then show ?thesis unfolding m_def .
qed

lemma toTwoDimensional_filter:
  "toTwoDimensional arr 10 =
     map (\<lambda>i. take 10 (drop i arr)) (filter (\<lambda>i. i mod 10 = 0) [0..<length arr])"
proof -
  have "(\<lambda>i. if (10::nat) \<noteq> 0 \<and> i mod 10 \<noteq> 0 then [] else [slice arr i (i + 10)]) =
        (\<lambda>i. if i mod 10 \<noteq> 0 then [] else [take 10 (drop i arr)])"
    by (intro ext) (simp add: slice_def)
  then have "toTwoDimensional arr 10 =
      concat (map (\<lambda>i. if i mod 10 \<noteq> 0 then [] else [take 10 (drop i arr)]) [0..<length arr])"
    unfolding toTwoDimensional_def by (simp only:)
  also have "\<dots> = map (\<lambda>i. take 10 (drop i arr)) (filter (\<lambda>i. \<not> i mod 10 \<noteq> 0) [0..<length arr])"
    by (rule concat_map_if)
  finally show ?thesis by (simp only: not_not)
qed

lemma toTwoDimensional_rows:
  "toTwoDimensional arr 10 = map (\<lambda>k. take 10 (drop (10 * k) arr)) [0..<(length arr + 9) div 10]"
  by (simp only: toTwoDimensional_filter multiples_of_10 map_map o_def)

text \<open>
  C4. The grid of a sequence of \<open>N\<close> colors has \<open>\<lceil>N / 10\<rceil>\<close> rows; each of the first
  \<open>\<lfloor>N / 10\<rfloor>\<close> rows has 10 cells; the last row has \<open>N mod 10\<close> cells when that is not
  0, and 10 cells when \<open>N\<close> is a positive multiple of 10; there is no row when \<open>N\<close> is
  0. The rows, one after the other, are the sequence.
\<close>

theorem grid_partition:
  "int (length (toTwoDimensional arr 10)) = \<lceil>real (length arr) / 10\<rceil> \<and>
   (\<forall>i < length arr div 10. length (toTwoDimensional arr 10 ! i) = 10) \<and>
   (length arr mod 10 \<noteq> 0 \<longrightarrow> length (last (toTwoDimensional arr 10)) = length arr mod 10) \<and>
   (0 < length arr \<and> length arr mod 10 = 0 \<longrightarrow> length (last (toTwoDimensional arr 10)) = 10) \<and>
   (length arr = 0 \<longrightarrow> toTwoDimensional arr 10 = []) \<and>
   concat (toTwoDimensional arr 10) = arr"
proof -
  define n where "n = length arr"
  define m where "m = (n + 9) div 10"
  define g where "g = toTwoDimensional arr 10"
  have g: "g = map (\<lambda>k. take 10 (drop (10 * k) arr)) [0..<m]"
    unfolding g_def m_def n_def by (rule toTwoDimensional_rows)
  from rows_bounds [of n] have bounds: "n \<le> 10 * m" "10 * m < n + 10"
    unfolding m_def by simp_all
  have len: "length g = m"
    by (simp add: g)
  have row: "length (g ! k) = min 10 (n - 10 * k)" if "k < m" for k
    using that by (simp add: g n_def min.commute)
  have full: "length (g ! i) = 10" if "i < n div 10" for i
  proof -
    have "10 * (n div 10) \<le> n" by simp
    with that have "10 * i + 10 \<le> n" by linarith
    with bounds have "i < m" "min 10 (n - 10 * i) = 10" by linarith+
    with row [of i] show ?thesis by simp
  qed
  have lastrow: "length (last g) = n - 10 * (m - 1)" if "0 < n"
  proof -
    from that bounds have pos: "0 < m" by linarith
    with len have "g \<noteq> []" by auto
    then have "last g = g ! (m - 1)"
      by (simp add: last_conv_nth len)
    moreover from pos bounds have "min 10 (n - 10 * (m - 1)) = n - 10 * (m - 1)" by linarith
    ultimately show ?thesis using row [of "m - 1"] pos by simp
  qed
  have decomp: "n = 10 * (m - 1) + (n - 10 * (m - 1)) \<and> 0 < n - 10 * (m - 1) \<and> n - 10 * (m - 1) \<le> 10"
    if "0 < n"
    using that bounds by linarith
  have ragged: "length (last g) = n mod 10" if "n mod 10 \<noteq> 0"
  proof -
    from that have pos: "0 < n" by (cases n) simp_all
    define d where "d = n - 10 * (m - 1)"
    from decomp [OF pos] have d: "n = 10 * (m - 1) + d" "0 < d" "d \<le> 10"
      unfolding d_def by simp_all
    have "n mod 10 = d mod 10"
      by (subst d(1)) simp
    with that d have "d \<noteq> 10" by auto
    with d have "d < 10" by simp
    with \<open>n mod 10 = d mod 10\<close> have "n mod 10 = d" by simp
    with lastrow [OF pos] show ?thesis by (simp add: d_def)
  qed
  have even: "length (last g) = 10" if "0 < n" "n mod 10 = 0"
  proof -
    define d where "d = n - 10 * (m - 1)"
    from decomp [OF that(1)] have d: "n = 10 * (m - 1) + d" "0 < d" "d \<le> 10"
      unfolding d_def by simp_all
    have "n mod 10 = d mod 10"
      by (subst d(1)) simp
    with that(2) have "d mod 10 = 0" by simp
    with d have "d = 10" by (cases "d = 10") simp_all
    with lastrow [OF that(1)] show ?thesis by (simp add: d_def)
  qed
  have none: "g = []" if "n = 0"
    using that bounds by (simp add: g)
  have all: "concat g = arr"
    using bounds by (simp add: g concat_rows n_def)
  have "int (length g) = \<lceil>real n / 10\<rceil>"
    by (simp add: len ceil10 m_def)
  then have c: "int (length (toTwoDimensional arr 10)) = \<lceil>real (length arr) / 10\<rceil>"
    unfolding g_def n_def .
  show ?thesis
  proof (intro conjI allI impI)
    show "int (length (toTwoDimensional arr 10)) = \<lceil>real (length arr) / 10\<rceil>"
      by (rule c)
  next
    fix i
    assume "i < length arr div 10"
    then show "length (toTwoDimensional arr 10 ! i) = 10"
      using full [of i] unfolding g_def n_def by simp
  next
    assume "length arr mod 10 \<noteq> 0"
    then show "length (last (toTwoDimensional arr 10)) = length arr mod 10"
      using ragged unfolding g_def n_def by simp
  next
    assume "0 < length arr \<and> length arr mod 10 = 0"
    then show "length (last (toTwoDimensional arr 10)) = 10"
      using even unfolding g_def n_def by simp
  next
    assume "length arr = 0"
    then show "toTwoDimensional arr 10 = []"
      using none unfolding g_def n_def by simp
  next
    show "concat (toTwoDimensional arr 10) = arr"
      using all unfolding g_def .
  qed
qed

theorem grid_partition_witness:
  "length (toTwoDimensional [0..<23::nat] 10) = 3 \<and>
   length (toTwoDimensional [0..<23::nat] 10 ! 0) = 10 \<and>
   length (toTwoDimensional [0..<23::nat] 10 ! 1) = 10 \<and>
   length (last (toTwoDimensional [0..<23::nat] 10)) = 3 \<and>
   length (last (toTwoDimensional [0..<20::nat] 10)) = 10 \<and>
   toTwoDimensional ([]::nat list) 10 = []"
proof -
  have a: "length [0..<23::nat] = 23" and b: "length [0..<20::nat] = 20" by simp_all
  have c: "\<lceil>real (23::nat) / 10\<rceil> = 3" by (simp add: ceiling_eq_iff)
  note w = grid_partition [of "[0..<23::nat]", unfolded a]
  note v = grid_partition [of "[0..<20::nat]", unfolded b]
  note u = grid_partition [of "[]::nat list"]
  from w c have 1: "length (toTwoDimensional [0..<23::nat] 10) = 3" by simp
  from w have 2: "length (toTwoDimensional [0..<23::nat] 10 ! 0) = 10"
    and 3: "length (toTwoDimensional [0..<23::nat] 10 ! 1) = 10" by simp_all
  from w have 4: "length (last (toTwoDimensional [0..<23::nat] 10)) = 3" by simp
  from v have 5: "length (last (toTwoDimensional [0..<20::nat] 10)) = 10" by simp
  from u have 6: "toTwoDimensional ([]::nat list) 10 = []" by simp
  from 1 2 3 4 5 6 show ?thesis by simp
qed

section \<open>The document\<close>

lemma inner_loop_closed:
  "inner_loop g i j acc = acc @ concat (map (\<lambda>j. rect i j (g ! i ! j)) [j..<length (g ! i)])"
proof (induction g i j acc rule: inner_loop.induct)
  case (1 g i j acc)
  show ?case
  proof (cases "j < length (g ! i)")
    case True
    then have "[j..<length (g ! i)] = j # [j + 1..<length (g ! i)]"
      by (simp add: upt_conv_Cons)
    with True "1.IH" show ?thesis
      by (subst inner_loop.simps) simp
  next
    case False
    then show ?thesis
      by (subst inner_loop.simps) simp
  qed
qed

lemma outer_loop_closed:
  "outer_loop g i acc =
     acc @ concat (map (\<lambda>i. concat (map (\<lambda>j. rect i j (g ! i ! j)) [0..<length (g ! i)]))
       [i..<length g])"
proof (induction g i acc rule: outer_loop.induct)
  case (1 g i acc)
  show ?case
  proof (cases "i < length g")
    case True
    then have "[i..<length g] = i # [i + 1..<length g]"
      by (simp add: upt_conv_Cons)
    with True "1.IH" show ?thesis
      by (subst outer_loop.simps) (simp add: inner_loop_closed)
  next
    case False
    then show ?thesis
      by (subst outer_loop.simps) simp
  qed
qed

lemma show_nat_640: "show_nat 640 = ''640''"
  by code_simp

lemma toSvgAsString_document: "toSvgAsString g = svg_document g"
  by (simp add: toSvgAsString_def svg_document_def svg_open_def rect_def outer_loop_closed
      show_nat_640 mult.commute [of 64])

text \<open>
  C7. The document rendered for a sequence of colors is the one the specification
  describes for its grid: width 640 whatever the number of cells of the last row, height
  64 for each row, and for the cell of row \<open>i\<close> and column \<open>j\<close> one rectangle at
  \<open>(j \<times> 64, i \<times> 64)\<close> of width and height 64 filled with the color of the cell. For
  no color at all it is the opening tag with width 640 and height 0 followed by the
  closing tag.
\<close>

theorem rendered_document:
  \<open>toSvgAsString (toTwoDimensional hexColors 10) = svg_document (toTwoDimensional hexColors 10) \<and>
   toSvgAsString (toTwoDimensional [] 10) =
     ''<svg\<newline>  width="640"\<newline>  height="0"\<newline>  viewBox="0 0 640 0"\<newline>  fill="none"\<newline>  xmlns="http://www.w3.org/2000/svg"\<newline>></svg>''\<close>
proof
  show "toSvgAsString (toTwoDimensional hexColors 10) = svg_document (toTwoDimensional hexColors 10)"
    by (rule toSvgAsString_document)
  show \<open>toSvgAsString (toTwoDimensional [] 10) =
     ''<svg\<newline>  width="640"\<newline>  height="0"\<newline>  viewBox="0 0 640 0"\<newline>  fill="none"\<newline>  xmlns="http://www.w3.org/2000/svg"\<newline>></svg>''\<close>
    by code_simp
qed

theorem rendered_document_witness:
  \<open>toSvgAsString (toTwoDimensional [''#ff0000''] 10) =
     ''<svg\<newline>  width="640"\<newline>  height="64"\<newline>  viewBox="0 0 640 64"\<newline>  fill="none"\<newline>  xmlns="http://www.w3.org/2000/svg"\<newline>><rect x="0" y="0" width="64" height="64" fill="#ff0000" /></svg>''\<close>
proof -
  have \<open>svg_document (toTwoDimensional [''#ff0000''] 10) =
     ''<svg\<newline>  width="640"\<newline>  height="64"\<newline>  viewBox="0 0 640 64"\<newline>  fill="none"\<newline>  xmlns="http://www.w3.org/2000/svg"\<newline>><rect x="0" y="0" width="64" height="64" fill="#ff0000" /></svg>''\<close>
    by code_simp
  with rendered_document [of "[''#ff0000'']"] show ?thesis by (simp only:)
qed

section \<open>The handler\<close>

lemma files_loop_fails:
  assumes "f \<in> set entries" and "isCSSRequest (path f)"
    and "(\<exists>e. buffer f = Inl e) \<or> (\<exists>txt e. buffer f = Inr txt \<and> parse env txt = Inl e)"
  shows "\<exists>e. files_loop env entries acc = Inl e"
  using assms(1)
proof (induction entries arbitrary: acc)
  case Nil
  then show ?case by simp
next
  case (Cons g gs)
  show ?case
  proof (cases "f = g")
    case True
    with assms(2,3) show ?thesis
      by (auto split: sum.splits)
  next
    case False
    with Cons.prems have "f \<in> set gs" by simp
    from Cons.IH [OF this] show ?thesis
      by (auto split: sum.splits)
  qed
qed

text \<open>
  C8. When the request has its three parameters and the fetch throws, or the archive
  does not open, or one stylesheet entry cannot be read or parsed, the handler answers
  with status 500 and no body, whatever the other stylesheets hold.
\<close>

theorem failure_is_500:
  assumes "getSearchParams env rawUrl = Inr (Some options)"
    and "(\<exists>e. fetch env (zipball_url options) = Inl e) \<or>
         (\<exists>buf e. fetch env (zipball_url options) = Inr buf \<and> open_buffer env buf = Inl e) \<or>
         (\<exists>buf entries f. fetch env (zipball_url options) = Inr buf \<and>
            open_buffer env buf = Inr entries \<and> f \<in> set entries \<and> isCSSRequest (path f) \<and>
            ((\<exists>e. buffer f = Inl e) \<or> (\<exists>txt e. buffer f = Inr txt \<and> parse env txt = Inl e)))"
  shows "snd (handler env rawUrl) = Inr \<lparr>statusCode = 500, body = None, HEADERS = None\<rparr>"
proof -
  from assms(2) consider
      (a) e where "fetch env (zipball_url options) = Inl e"
    | (b) buf e where "fetch env (zipball_url options) = Inr buf" "open_buffer env buf = Inl e"
    | (c) buf entries f where "fetch env (zipball_url options) = Inr buf"
        "open_buffer env buf = Inr entries" "f \<in> set entries" "isCSSRequest (path f)"
        "(\<exists>e. buffer f = Inl e) \<or> (\<exists>txt e. buffer f = Inr txt \<and> parse env txt = Inl e)"
    by blast
  then have "\<exists>e. main_colors env options = Inl e"
  proof cases
    case a
    then show ?thesis by (simp add: main_colors_def)
  next
    case b
    then show ?thesis by (simp add: main_colors_def)
  next
    case c
    from files_loop_fails [OF c(3,4,5)] c(1,2) show ?thesis
      by (simp add: main_colors_def)
  qed
  then obtain e where "main_colors env options = Inl e" by blast
  with assms(1) show ?thesis
    by (simp add: handler_def main_def)
qed

theorem failure_is_500_witness:
  "getSearchParams (demo_services demo_broken_entries) ''https://x.test/?repo=r&owner=o&branch=main''
     = Inr (Some demo_options) \<and>
   fetch (demo_services demo_broken_entries) (zipball_url demo_options) = Inr ''PK'' \<and>
   open_buffer (demo_services demo_broken_entries) ''PK'' = Inr demo_broken_entries \<and>
   \<lparr>path = ''r-main/bad.css'', buffer = Inr ''a{color:#fff''\<rparr> \<in> set demo_broken_entries \<and>
   isCSSRequest ''r-main/bad.css'' \<and>
   parse (demo_services demo_broken_entries) ''a{color:#fff'' = Inl () \<and>
   snd (handler (demo_services demo_broken_entries) ''https://x.test/?repo=r&owner=o&branch=main'')
     = Inr \<lparr>statusCode = 500, body = None, HEADERS = None\<rparr>"
proof -
  let ?env = "demo_services demo_broken_entries"
  let ?url = "''https://x.test/?repo=r&owner=o&branch=main''"
  let ?f = "\<lparr>path = ''r-main/bad.css'', buffer = Inr ''a{color:#fff''\<rparr> :: unit zip_file"
  have p: "getSearchParams ?env ?url = Inr (Some demo_options)"
    by (simp add: getSearchParams_def demo_services_def demo_options_def has_def get_or_empty_def)
  have a: "fetch ?env (zipball_url demo_options) = Inr ''PK''"
    by (simp add: demo_services_def)
  have b: "open_buffer ?env ''PK'' = Inr demo_broken_entries"
    by (simp add: demo_services_def)
  have c: "?f \<in> set demo_broken_entries"
    by (simp add: demo_broken_entries_def)
  have d: "isCSSRequest ''r-main/bad.css''"
    by code_simp
  have e: "parse ?env ''a{color:#fff'' = Inl ()"
    by (simp add: demo_services_def demo_parse_def)
  have "\<exists>buf entries f. fetch ?env (zipball_url demo_options) = Inr buf \<and>
            open_buffer ?env buf = Inr entries \<and> f \<in> set entries \<and> isCSSRequest (path f) \<and>
            ((\<exists>e. buffer f = Inl e) \<or> (\<exists>txt e. buffer f = Inr txt \<and> parse ?env txt = Inl e))"
    using a b c d e
    by (intro exI [of _ "''PK''"] exI [of _ demo_broken_entries] exI [of _ ?f]) simp
  then have h: "(\<exists>e. fetch ?env (zipball_url demo_options) = Inl e) \<or>
         (\<exists>buf e. fetch ?env (zipball_url demo_options) = Inr buf \<and> open_buffer ?env buf = Inl e) \<or>
         (\<exists>buf entries f. fetch ?env (zipball_url demo_options) = Inr buf \<and>
            open_buffer ?env buf = Inr entries \<and> f \<in> set entries \<and> isCSSRequest (path f) \<and>
            ((\<exists>e. buffer f = Inl e) \<or> (\<exists>txt e. buffer f = Inr txt \<and> parse ?env txt = Inl e)))"
    by blast
  note r = failure_is_500 [OF p h]
  from p a b c d e r show ?thesis by (intro conjI)
qed

text \<open>
  C9. When one of the parameters \<^verbatim>\<open>repo\<close>, \<^verbatim>\<open>owner\<close> and \<^verbatim>\<open>branch\<close> is absent from
  the request, the handler answers with status 400 and no body, and nothing has been
  requested from the network.
\<close>

theorem missing_parameter_is_400:
  assumes "searchParams env rawUrl = Inr ps"
    and "\<not> has ps ''repo'' \<or> \<not> has ps ''owner'' \<or> \<not> has ps ''branch''"
  shows "handler env rawUrl = ([], Inr \<lparr>statusCode = 400, body = None, HEADERS = None\<rparr>)"
  using assms by (auto simp: handler_def getSearchParams_def)

theorem missing_parameter_is_400_witness:
  "searchParams ((demo_services demo_entries)\<lparr>searchParams := \<lambda>url. Inr [(''repo'', ''r''), (''owner'', ''o'')]\<rparr>)
     ''https://x.test/?repo=r&owner=o'' = Inr [(''repo'', ''r''), (''owner'', ''o'')] \<and>
   \<not> has [(''repo'', ''r''), (''owner'', ''o'')] ''branch'' \<and>
   handler ((demo_services demo_entries)\<lparr>searchParams := \<lambda>url. Inr [(''repo'', ''r''), (''owner'', ''o'')]\<rparr>)
     ''https://x.test/?repo=r&owner=o'' = ([], Inr \<lparr>statusCode = 400, body = None, HEADERS = None\<rparr>)"
proof -
  let ?env = "(demo_services demo_entries)\<lparr>searchParams := \<lambda>url. Inr [(''repo'', ''r''), (''owner'', ''o'')]\<rparr>"
  have a: "searchParams ?env ''https://x.test/?repo=r&owner=o'' = Inr [(''repo'', ''r''), (''owner'', ''o'')]"
    by simp
  have b: "\<not> has [(''repo'', ''r''), (''owner'', ''o'')] ''branch''"
    by (simp add: has_def)
  then have c: "\<not> has [(''repo'', ''r''), (''owner'', ''o'')] ''repo'' \<or>
      \<not> has [(''repo'', ''r''), (''owner'', ''o'')] ''owner'' \<or>
      \<not> has [(''repo'', ''r''), (''owner'', ''o'')] ''branch''"
    by blast
  note r = missing_parameter_is_400 [OF a c]
  from a b r show ?thesis by (intro conjI)
qed

section \<open>The matches of a declaration value\<close>

lemma rmatch_ends_at_eol:
  "ends_at_eol r \<Longrightarrow> (j, rest) \<in> set (rmatch r st) \<Longrightarrow> rest = []"
proof (induction r arbitrary: st j rest)
  case Eol
  then show ?case by (cases st) (simp split: if_splits)
next
  case (Seq a b)
  then show ?case by (cases st) auto
next
  case (Alt a b)
  then show ?case by (cases st) auto
qed simp_all

lemma color_re_ends_at_eol: "ends_at_eol color_re"
  by (simp add: color_re_def hex_re_def rgb_re_def)

lemma color_re_no_empty_match: "rmatch color_re (j, []) = []"
  by (simp add: color_re_def hex_re_def rgb_re_def)

lemma exec_color_re_rest: "exec color_re i s = Some (m, j, rest) \<Longrightarrow> rest = []"
proof (induction s arbitrary: i)
  case Nil
  then show ?case
    by (simp add: color_re_no_empty_match)
next
  case (Cons c s)
  show ?case
  proof (cases "rmatch color_re (i, c # s)")
    case Nil
    with Cons show ?thesis by simp
  next
    case (Cons st sts)
    obtain k r where st: "st = (k, r)" by (cases st)
    with Cons have "(k, r) \<in> set (rmatch color_re (i, c # s))" by simp
    from rmatch_ends_at_eol [OF color_re_ends_at_eol this] have "r = []" .
    with Cons st Cons.prems show ?thesis by auto
  qed
qed

lemma value_match_at_most_one: "length (value_match v) \<le> 1"
proof (cases "exec color_re 0 v")
  case None
  then show ?thesis
    by (simp add: value_match_def match_g_def match_loop.simps [of color_re 0 v])
next
  case (Some res)
  obtain m j rest where res: "res = (m, j, rest)" by (cases res)
  with Some have "rest = []" by (auto dest: exec_color_re_rest)
  have "match_loop color_re j [] = []"
    by (simp add: match_loop.simps [of color_re j "[]"] color_re_no_empty_match)
  with Some res \<open>rest = []\<close> show ?thesis
    by (simp add: value_match_def match_g_def match_loop.simps [of color_re 0 v])
qed

text \<open>
  C1. On the code a declaration value contributes at most one color: the hex alternative
  is anchored at both ends of the value and the functional alternative at its end. A
  gradient of two hex colors matches nothing, and neither does a border value whose
  last word is a hex color, so the walker finds no color in them whatever the
  Normalizer; of two functional colors in one value only the last is matched; and no
  value has more than one match.
\<close>

theorem one_color_per_value:
  "recursion c [Rule ''a'' [Decl ''background'' ''linear-gradient(#fff, #000)'']] = [] \<and>
   recursion c [Rule ''a'' [Decl ''border'' ''1px solid #fff'']] = [] \<and>
   value_match ''rgb(0,0,0) rgb(255,255,255)'' = [''rgb(255,255,255)''] \<and>
   length (value_match v) \<le> 1"
proof -
  have a: "value_match ''linear-gradient(#fff, #000)'' = []" by code_simp
  have b: "value_match ''1px solid #fff'' = []" by code_simp
  have d: "value_match ''rgb(0,0,0) rgb(255,255,255)'' = [''rgb(255,255,255)'']" by code_simp
  from a b d value_match_at_most_one [of v] show ?thesis by simp
qed

section \<open>The Normalizer of the specification: canonical form\<close>

lemma hex_digit_value:
  assumes "ch \<in> set hexdigit"
  shows "\<exists>v<16. hex_value ch = Some v \<and> lower_hexdigit ! v = to_lower ch"
proof -
  have "list_all (\<lambda>ch. case hex_value ch of None \<Rightarrow> False
          | Some v \<Rightarrow> v < 16 \<and> lower_hexdigit ! v = to_lower ch) hexdigit"
    by code_simp
  with assms have "case hex_value ch of None \<Rightarrow> False
      | Some v \<Rightarrow> v < 16 \<and> lower_hexdigit ! v = to_lower ch"
    unfolding list_all_iff by blast
  then show ?thesis by (cases "hex_value ch") simp_all
qed

lemma hex_pair_digits: "a < 16 \<Longrightarrow> b < 16 \<Longrightarrow> hex_pair (16 * a + b) = [lower_hexdigit ! a, lower_hexdigit ! b]"
  by (simp add: hex_pair_def)

lemma hex_pair_double: "a < 16 \<Longrightarrow> hex_pair (17 * a) = [lower_hexdigit ! a, lower_hexdigit ! a]"
  using hex_pair_digits [of a a] by simp

lemma hex_pair_canonical: "list_all (\<lambda>ch. ch \<in> set lower_hexdigit) (hex_pair n)"
proof -
  have "k < 16 \<Longrightarrow> lower_hexdigit ! k \<in> set lower_hexdigit" for k
    by (rule nth_mem) (simp add: lower_hexdigit_def)
  then show ?thesis by (simp add: hex_pair_def)
qed

lemma hex_pair_length: "length (hex_pair n) = 2"
  by (simp add: hex_pair_def)

lemma spec_to_hex_canonical: "canonical_hex (spec_to_hex v)"
  using hex_pair_canonical [of "red v"] hex_pair_canonical [of "green v"] hex_pair_canonical [of "blue v"]
  by (simp add: canonical_hex_def spec_to_hex_def hex_pair_length)

lemma normalizer_canonical: "normalizer spec_cs t = Some h \<Longrightarrow> canonical_hex h"
  by (auto simp: normalizer_def spec_cs_def spec_to_hex_canonical split: option.splits)

lemma normalizer_hex3:
  assumes "a \<in> set hexdigit" "b \<in> set hexdigit" "c \<in> set hexdigit"
  shows "normalizer spec_cs [CHR ''#'', a, b, c] =
           Some [CHR ''#'', to_lower a, to_lower a, to_lower b, to_lower b, to_lower c, to_lower c]"
proof -
  from hex_digit_value [OF assms(1)] obtain va where
    va: "va < 16" "hex_value a = Some va" "lower_hexdigit ! va = to_lower a" by blast
  from hex_digit_value [OF assms(2)] obtain vb where
    vb: "vb < 16" "hex_value b = Some vb" "lower_hexdigit ! vb = to_lower b" by blast
  from hex_digit_value [OF assms(3)] obtain vc where
    vc: "vc < 16" "hex_value c = Some vc" "lower_hexdigit ! vc = to_lower c" by blast
  from va vb vc show ?thesis
    by (simp add: normalizer_def spec_cs_def spec_get_def get_hex_def spec_to_hex_def hex_pair_double)
qed

lemma normalizer_hex6:
  assumes "a \<in> set hexdigit" "a' \<in> set hexdigit" "b \<in> set hexdigit" "b' \<in> set hexdigit"
    "c \<in> set hexdigit" "c' \<in> set hexdigit"
  shows "normalizer spec_cs [CHR ''#'', a, a', b, b', c, c'] =
           Some [CHR ''#'', to_lower a, to_lower a', to_lower b, to_lower b', to_lower c, to_lower c']"
proof -
  from hex_digit_value [OF assms(1)] obtain va where
    va: "va < 16" "hex_value a = Some va" "lower_hexdigit ! va = to_lower a" by blast
  from hex_digit_value [OF assms(2)] obtain va' where
    va': "va' < 16" "hex_value a' = Some va'" "lower_hexdigit ! va' = to_lower a'" by blast
  from hex_digit_value [OF assms(3)] obtain vb where
    vb: "vb < 16" "hex_value b = Some vb" "lower_hexdigit ! vb = to_lower b" by blast
  from hex_digit_value [OF assms(4)] obtain vb' where
    vb': "vb' < 16" "hex_value b' = Some vb'" "lower_hexdigit ! vb' = to_lower b'" by blast
  from hex_digit_value [OF assms(5)] obtain vc where
    vc: "vc < 16" "hex_value c = Some vc" "lower_hexdigit ! vc = to_lower c" by blast
  from hex_digit_value [OF assms(6)] obtain vc' where
    vc': "vc' < 16" "hex_value c' = Some vc'" "lower_hexdigit ! vc' = to_lower c'" by blast
  from va va' vb vb' vc vc' show ?thesis
    by (simp add: normalizer_def spec_cs_def spec_get_def get_hex_def spec_to_hex_def hex_pair_digits)
qed

lemma normalizer_hex:
  assumes "list_all (\<lambda>ch. ch \<in> set hexdigit) ds" and "length ds = 3 \<or> length ds = 6"
  shows "normalizer spec_cs (CHR ''#'' # ds) = Some (CHR ''#'' # map to_lower (expand6 ds))"
  using assms(2)
proof
  assume "length ds = 3"
  then obtain a b c where ds: "ds = [a, b, c]"
    by (auto simp: numeral_3_eq_3 length_Suc_conv)
  with assms(1) show ?thesis
    by (simp add: normalizer_hex3 expand6_def)
next
  assume "length ds = 6"
  then obtain a a' b b' c c' where ds: "ds = [a, a', b, b', c, c']"
    by (auto simp: eval_nat_numeral length_Suc_conv)
  with assms(1) show ?thesis
    by (simp add: normalizer_hex6 expand6_def)
qed

text \<open>
  C6. On the Normalizer of the specification, a valid hex input, 3 or 6 digits in any
  letter case, resolves to \<^verbatim>\<open>#\<close> and its six digits in lower case, the digits of a
  3-digit input doubled; this is a canonical 6-digit hex string, and two valid inputs
  with the same six lower-case digits, which is when they denote the same color,
  resolve to the same string.
\<close>

theorem hex_style_same_canonical:
  assumes "list_all (\<lambda>ch. ch \<in> set hexdigit) ds" and "length ds = 3 \<or> length ds = 6"
  shows "normalizer spec_cs (CHR ''#'' # ds) = Some (CHR ''#'' # map to_lower (expand6 ds)) \<and>
         canonical_hex (CHR ''#'' # map to_lower (expand6 ds)) \<and>
         (\<forall>ds'. list_all (\<lambda>ch. ch \<in> set hexdigit) ds' \<and> (length ds' = 3 \<or> length ds' = 6) \<and>
                map to_lower (expand6 ds') = map to_lower (expand6 ds) \<longrightarrow>
                normalizer spec_cs (CHR ''#'' # ds') = normalizer spec_cs (CHR ''#'' # ds))"
proof -
  note n = normalizer_hex [OF assms]
  from normalizer_canonical [OF n] have "canonical_hex (CHR ''#'' # map to_lower (expand6 ds))" .
  moreover have "normalizer spec_cs (CHR ''#'' # ds') = normalizer spec_cs (CHR ''#'' # ds)"
    if "list_all (\<lambda>ch. ch \<in> set hexdigit) ds'" "length ds' = 3 \<or> length ds' = 6"
      "map to_lower (expand6 ds') = map to_lower (expand6 ds)" for ds'
    using normalizer_hex [OF that(1,2)] n that(3) by simp
  ultimately show ?thesis using n by blast
qed

theorem hex_style_same_canonical_witness:
  "list_all (\<lambda>ch. ch \<in> set hexdigit) ''abc'' \<and> length ''abc'' = 3 \<and>
   list_all (\<lambda>ch. ch \<in> set hexdigit) ''AaBBcC'' \<and> length ''AaBBcC'' = 6 \<and>
   normalizer spec_cs ''#abc'' = Some ''#aabbcc'' \<and>
   canonical_hex ''#aabbcc'' \<and>
   normalizer spec_cs ''#AaBBcC'' = normalizer spec_cs ''#abc''"
proof -
  have a: "list_all (\<lambda>ch. ch \<in> set hexdigit) ''abc''" by code_simp
  have b: "length ''abc'' = 3 \<or> length ''abc'' = 6" by simp
  have c: "list_all (\<lambda>ch. ch \<in> set hexdigit) ''AaBBcC''" by code_simp
  have d: "map to_lower (expand6 ''AaBBcC'') = map to_lower (expand6 ''abc'')" by code_simp
  have e: "CHR ''#'' # map to_lower (expand6 ''abc'') = ''#aabbcc''" by code_simp
  note w = hex_style_same_canonical [OF a b, unfolded e]
  from w have 1: "normalizer spec_cs ''#abc'' = Some ''#aabbcc''" by blast
  from w have 2: "canonical_hex ''#aabbcc''" by blast
  from w c d have 3: "normalizer spec_cs ''#AaBBcC'' = normalizer spec_cs ''#abc''" by simp
  from a c 1 2 3 show ?thesis by simp
qed

lemma split_commas_nocomma: "CHR '','' \<notin> set w \<Longrightarrow> split_commas w = [w]"
  by (induction w) auto

lemma split_commas_field:
  "CHR '','' \<notin> set w \<Longrightarrow> split_commas (w @ CHR '','' # s) = w # split_commas s"
  by (induction w) auto

lemma to_lower_rgba:
  "map to_lower ''rgb('' = ''rgb(''" "map to_lower ''rgba('' = ''rgba(''"
  by code_simp+

lemma rgb_fields_rgb:
  assumes "CHR '','' \<notin> set r" "CHR '','' \<notin> set g" "CHR '','' \<notin> set b"
  shows "rgb_fields (rgb_token r g b) = Some [r, g, b]"
proof -
  have "map to_lower (rgb_token r g b) = ''rgb('' @ map to_lower (r @ '','' @ g @ '','' @ b @ '')'')"
    unfolding rgb_token_def map_append to_lower_rgba by simp
  moreover have "last (rgb_token r g b) = CHR '')''"
    by (simp add: rgb_token_def)
  moreover have "butlast (drop 4 (rgb_token r g b)) = r @ CHR '','' # g @ CHR '','' # b"
    by (simp add: rgb_token_def butlast_append)
  ultimately show ?thesis
    using assms by (simp add: rgb_fields_def split_commas_field split_commas_nocomma)
qed

lemma rgb_fields_rgba:
  assumes "CHR '','' \<notin> set r" "CHR '','' \<notin> set g" "CHR '','' \<notin> set b" "CHR '','' \<notin> set a"
  shows "rgb_fields (rgba_token r g b a) = Some [r, g, b, a]"
proof -
  have "map to_lower (rgba_token r g b a) =
          ''rgba('' @ map to_lower (r @ '','' @ g @ '','' @ b @ '','' @ a @ '')'')"
    unfolding rgba_token_def map_append to_lower_rgba by simp
  moreover have "last (rgba_token r g b a) = CHR '')''"
    by (simp add: rgba_token_def)
  moreover have "butlast (drop 5 (rgba_token r g b a)) = r @ CHR '','' # g @ CHR '','' # b @ CHR '','' # a"
    by (simp add: rgba_token_def butlast_append)
  ultimately show ?thesis
    using assms by (simp add: rgb_fields_def split_commas_field split_commas_nocomma)
qed

lemma spec_get_rgb_token: "spec_get (rgb_token r g b) = get_rgb (rgb_token r g b)"
  by (simp add: spec_get_def rgb_token_def)

lemma spec_get_rgba_token: "spec_get (rgba_token r g b a) = get_rgb (rgba_token r g b a)"
  by (simp add: spec_get_def rgba_token_def)

lemma normalizer_map_option: "normalizer c t = map_option (cs_to_hex c) (cs_get c t)"
  by (simp add: normalizer_def split: option.splits)

text \<open>
  C2. On the Normalizer of the specification, whatever a token resolves to is a
  canonical 6-digit hex string, and an \<^verbatim>\<open>rgb\<close> token and an \<^verbatim>\<open>rgba\<close> token whose
  three channels have the same values resolve alike, whatever the alpha field is.
\<close>

theorem alpha_ignored:
  assumes "CHR '','' \<notin> set (r @ g @ b)" and "CHR '','' \<notin> set (r' @ g' @ b' @ a)"
    and "channel r = channel r'" and "channel g = channel g'" and "channel b = channel b'"
  shows "normalizer spec_cs (rgb_token r g b) = normalizer spec_cs (rgba_token r' g' b' a) \<and>
         (\<forall>t h. normalizer spec_cs t = Some h \<longrightarrow> canonical_hex h)"
proof -
  from assms(1) have f: "rgb_fields (rgb_token r g b) = Some [r, g, b]"
    by (intro rgb_fields_rgb) simp_all
  from assms(2) have f': "rgb_fields (rgba_token r' g' b' a) = Some [r', g', b', a]"
    by (intro rgb_fields_rgba) simp_all
  have "map_option spec_to_hex (get_rgb (rgb_token r g b)) =
        map_option spec_to_hex (get_rgb (rgba_token r' g' b' a))"
    using assms(3,4,5)
    by (simp add: get_rgb_def f f' spec_to_hex_def split: option.splits)
  then have "normalizer spec_cs (rgb_token r g b) = normalizer spec_cs (rgba_token r' g' b' a)"
    by (simp add: normalizer_map_option spec_cs_def spec_get_rgb_token spec_get_rgba_token)
  then show ?thesis by (simp add: normalizer_canonical)
qed

theorem alpha_ignored_witness:
  "CHR '','' \<notin> set (''255'' @ ''0'' @ ''0'') \<and> CHR '','' \<notin> set (''255'' @ '' 0'' @ '' 0'' @ '' 0.5'') \<and>
   channel ''255'' = channel ''255'' \<and> channel ''0'' = channel '' 0'' \<and>
   normalizer spec_cs ''rgb(255,0,0)'' = normalizer spec_cs ''rgba(255, 0, 0, 0.5)'' \<and>
   normalizer spec_cs ''rgba(255, 0, 0, 0.5)'' = Some ''#ff0000'' \<and>
   canonical_hex ''#ff0000''"
proof -
  have a: "CHR '','' \<notin> set (''255'' @ ''0'' @ ''0'')" by simp
  have b: "CHR '','' \<notin> set (''255'' @ '' 0'' @ '' 0'' @ '' 0.5'')" by simp
  have c: "channel ''255'' = channel ''255''" by simp
  have d: "channel ''0'' = channel '' 0''" by code_simp
  have e: "rgb_token ''255'' ''0'' ''0'' = ''rgb(255,0,0)''"
    by (simp add: rgb_token_def)
  have f: "rgba_token ''255'' '' 0'' '' 0'' '' 0.5'' = ''rgba(255, 0, 0, 0.5)''"
    by (simp add: rgba_token_def)
  have g: "normalizer spec_cs ''rgba(255, 0, 0, 0.5)'' = Some ''#ff0000''" by code_simp
  note w = alpha_ignored [OF a b c d d, unfolded e f]
  from w have 1: "normalizer spec_cs ''rgb(255,0,0)'' = normalizer spec_cs ''rgba(255, 0, 0, 0.5)''"
    by blast
  from w g have 2: "canonical_hex ''#ff0000''" by blast
  from a b c d 1 g 2 show ?thesis by (intro conjI)
qed

end
